theory Spec2Isabelle
  imports Complex_Main "HOL-Library.Multiset"
begin

section \<open>The data model\<close>

text \<open>
  The enum \<open>ImgStatus\<close> and the pydantic models \<open>Item\<close>, \<open>Game\<close> and
  \<open>GameWithExtras\<close> of the source. \<open>GameWithExtras\<close> extends \<open>Game\<close> by the
  event \<open>ended_event\<close> (a flag that is set or not) and the timer \<open>end_timer\<close>
  (absent, or armed with its delay in seconds).
\<close>

datatype ImgStatus = CLOSED | TEMP_OPEN | OPEN | CLOSING

record Item =
  photoId :: int
  status :: ImgStatus

record Game =
  token :: string
  items :: "Item list list"
  ended :: bool
  started_at :: real
  score :: int

record GameWithExtras = Game +
  ended_event :: bool
  end_timer :: "nat option"

text \<open>
  The class attribute \<open>_token2game\<close>: a dictionary from tokens to the sessions. The
  dictionary holds the session objects themselves, so a session that a request mutates is
  mutated in the dictionary as well: the model writes the session back under the key it was
  read from.
\<close>

type_synonym token2game = "string \<rightharpoonup> GameWithExtras"

text \<open>
  The failures of a request: 404 and 409 are raised by the handlers, 422 by the
  \<open>Query(..., ge=0, le=3)\<close> validation of \<open>row\<close> and \<open>col\<close>; \<open>IndexError\<close> and
  \<open>KeyError\<close> are the exceptions of list indexing and of \<open>dict.pop\<close>.
\<close>

datatype error = NotFound | Conflict | RangeError | IndexError | KeyError

section \<open>Building the board\<close>

text \<open>\<open>Item(photoId=p)\<close>: the field \<open>status\<close> takes its declared default.\<close>

definition new_Item :: "int \<Rightarrow> Item" where
  "new_Item p = \<lparr>photoId = p, status = CLOSING\<rparr>"

text \<open>
  \<open>random.shuffle\<close> of the standard library walks \<open>i\<close> from the last index down to 1,
  draws \<open>j = randbelow(i + 1)\<close> and swaps the entries \<open>i\<close> and \<open>j\<close>. The random source
  is a parameter: \<open>rnd i\<close> is the entropy consumed at index \<open>i\<close>, and \<open>randbelow\<close> maps
  it into the range \<open>0 ..< n\<close>.
\<close>

definition randbelow :: "nat \<Rightarrow> nat \<Rightarrow> nat" where
  "randbelow e n = e mod n"

fun shuffle_loop :: "(nat \<Rightarrow> nat) \<Rightarrow> nat \<Rightarrow> 'a list \<Rightarrow> 'a list" where
  "shuffle_loop rnd 0 x = x"
| "shuffle_loop rnd (Suc k) x =
     (let i = Suc k; j = randbelow (rnd i) (i + 1)
      in shuffle_loop rnd k (x[i := x ! j, j := x ! i]))"

definition shuffle :: "(nat \<Rightarrow> nat) \<Rightarrow> 'a list \<Rightarrow> 'a list" where
  "shuffle rnd x = shuffle_loop rnd (length x - 1) x"

text \<open>The slice \<open>xs[a:b]\<close> for \<open>0 \<le> a \<le> b\<close>.\<close>

definition slice :: "nat \<Rightarrow> nat \<Rightarrow> 'a list \<Rightarrow> 'a list" where
  "slice a b xs = take (b - a) (drop a xs)"

text \<open>\<open>list(range(8)) * 2\<close>.\<close>

definition photos0 :: "int list" where
  "photos0 = map int [0..<8] @ map int [0..<8]"

text \<open>The validator \<open>Game.createItems\<close>; \<open>v\<close> is the value supplied for \<open>items\<close>.\<close>

definition createItems :: "(nat \<Rightarrow> nat) \<Rightarrow> Item list list \<Rightarrow> Item list list" where
  "createItems rnd v =
     (if v \<noteq> [] then v
      else let photos = shuffle rnd photos0
           in map (\<lambda>i. map new_Item (slice (i * 4) ((i + 1) * 4) photos)) [0..<4])"

text \<open>
  \<open>GameWithExtras()\<close>: no argument is given, so every field takes its default. The token
  (\<open>secrets.token_urlsafe\<close>), the clock reading (\<open>time.time\<close>) and the random source are
  parameters.
\<close>

definition new_GameWithExtras :: "string \<Rightarrow> real \<Rightarrow> (nat \<Rightarrow> nat) \<Rightarrow> GameWithExtras" where
  "new_GameWithExtras tok now rnd =
     \<lparr>token = tok, items = createItems rnd [], ended = False, started_at = now, score = 0,
      ended_event = False, end_timer = None\<rparr>"

section \<open>The session store and the life cycle\<close>

definition store_game :: "token2game \<Rightarrow> GameWithExtras \<Rightarrow> token2game" where
  "store_game s self = s(token self \<mapsto> self)"

definition start :: "GameWithExtras \<Rightarrow> GameWithExtras" where
  "start self = self\<lparr>end_timer := Some 65\<rparr>"

text \<open>
  \<open>GameWithExtras.end\<close> for the session stored under the key \<open>loc\<close>. \<open>dict.pop\<close> with
  no default raises \<open>KeyError\<close> when the key is absent; by then the flag and the event are
  set.
\<close>

definition end_game ::
  "token2game \<Rightarrow> string \<Rightarrow> GameWithExtras \<Rightarrow> token2game \<times> (error + GameWithExtras)" where
  "end_game s loc self =
     (if \<not> ended self then
        let self' = self\<lparr>ended := True, ended_event := True\<rparr>;
            s' = s(loc \<mapsto> self')
        in if s' (token self') \<noteq> None then (s'(token self' := None), Inr self')
           else (s', Inl KeyError)
      else (s, Inr self))"

definition create_game ::
  "token2game \<Rightarrow> string \<Rightarrow> real \<Rightarrow> (nat \<Rightarrow> nat) \<Rightarrow> token2game \<times> GameWithExtras" where
  "create_game s tok now rnd =
     (let game = new_GameWithExtras tok now rnd;
          game = start game
      in (store_game s game, game))"

definition get_game_by_token :: "token2game \<Rightarrow> string \<Rightarrow> error + GameWithExtras" where
  "get_game_by_token s game_token =
     (case s game_token of None \<Rightarrow> Inl NotFound | Some game \<Rightarrow> Inr game)"

section \<open>Opening a picture\<close>

text \<open>
  The items of a board are separate objects, one per cell, so a reference to an item is the
  position of its cell: \<open>temp_opened\<close>, \<open>item1\<close> and \<open>item2\<close> of the source are
  positions here.
\<close>

type_synonym pos = "nat \<times> nat"

definition valid_pos :: "Item list list \<Rightarrow> pos \<Rightarrow> bool" where
  "valid_pos its p \<longleftrightarrow> fst p < length its \<and> snd p < length (its ! fst p)"

definition item_at :: "Item list list \<Rightarrow> pos \<Rightarrow> Item" where
  "item_at its p = its ! fst p ! snd p"

definition set_status :: "Item list list \<Rightarrow> pos \<Rightarrow> ImgStatus \<Rightarrow> Item list list" where
  "set_status its p st =
     its[fst p := (its ! fst p)[snd p := (its ! fst p ! snd p)\<lparr>status := st\<rparr>]]"

text \<open>
  The first pair of loops: the inner loop over the row \<open>r\<close> from column \<open>c\<close> on, and
  the outer loop from row \<open>r\<close> on. They return the references collected in \<open>temp_opened\<close>
  and the rows with every \<open>CLOSING\<close> item set to \<open>CLOSED\<close>.
\<close>

fun scan_row :: "nat \<Rightarrow> nat \<Rightarrow> Item list \<Rightarrow> pos list \<times> Item list" where
  "scan_row r c [] = ([], [])"
| "scan_row r c (item # item_row) =
     (let (temp_opened, item_row') = scan_row r (Suc c) item_row
      in ((if status item = TEMP_OPEN then [(r, c)] else []) @ temp_opened,
          (if status item = CLOSING then item\<lparr>status := CLOSED\<rparr> else item) # item_row'))"

fun scan_rows :: "nat \<Rightarrow> Item list list \<Rightarrow> pos list \<times> Item list list" where
  "scan_rows r [] = ([], [])"
| "scan_rows r (item_row # rows) =
     (let (temp_opened, item_row') = scan_row r 0 item_row;
          (temp_opened', rows') = scan_rows (Suc r) rows
      in (temp_opened @ temp_opened', item_row' # rows'))"

text \<open>
  The references that the scan of \<open>open_game_pic\<close> collects for a request at
  \<open>(row, col)\<close>: the selection of the turn, in row-major order.
\<close>

definition selected :: "Item list list \<Rightarrow> nat \<Rightarrow> nat \<Rightarrow> pos list" where
  "selected its row col = fst (scan_rows 0 (set_status its (row, col) TEMP_OPEN))"

text \<open>The second pair of loops: the list \<open>opened\<close>.\<close>

definition opened :: "Item list list \<Rightarrow> Item list" where
  "opened its = filter (\<lambda>item. status item = OPEN) (concat its)"

text \<open>
  The body of \<open>open_game_pic\<close> on the session object. It returns the mutated session and
  whether \<open>game.end()\<close> is to be called; no mutation precedes a failure.
\<close>

definition open_pic :: "GameWithExtras \<Rightarrow> nat \<Rightarrow> nat \<Rightarrow> error + GameWithExtras \<times> bool" where
  "open_pic game row col =
     (if \<not> valid_pos (items game) (row, col) then Inl IndexError
      else if status (item_at (items game) (row, col)) \<in> {OPEN, TEMP_OPEN} then Inl Conflict
      else
        let its1 = set_status (items game) (row, col) TEMP_OPEN;
            (temp_opened, its2) = scan_rows 0 its1
        in if length temp_opened < 2 then Inr (game\<lparr>items := its2\<rparr>, False)
           else
             let item1 = temp_opened ! 0;
                 item2 = temp_opened ! 1;
                 game' =
                   (if photoId (item_at its2 item1) = photoId (item_at its2 item2)
                    then game\<lparr>items := set_status (set_status its2 item1 OPEN) item2 OPEN,
                              score := score game + 30\<rparr>
                    else game\<lparr>items := set_status (set_status its2 item1 CLOSING) item2 CLOSING,
                              score := score game - 10\<rparr>)
             in Inr (game', length (opened (items game')) = 16))"

text \<open>
  The handler \<open>open_game_pic\<close>: the dependency \<open>get_game_by_token\<close> is resolved first,
  then the query parameters are validated, then the body runs. The result is the store after
  the request and the response or the failure.
\<close>

definition open_game_pic ::
  "token2game \<Rightarrow> string \<Rightarrow> int \<Rightarrow> int \<Rightarrow> token2game \<times> (error + GameWithExtras)" where
  "open_game_pic s game_token row col =
     (case get_game_by_token s game_token of
        Inl e \<Rightarrow> (s, Inl e)
      | Inr game \<Rightarrow>
          if \<not> (0 \<le> row \<and> row \<le> 3 \<and> 0 \<le> col \<and> col \<le> 3) then (s, Inl RangeError)
          else
            (case open_pic game (nat row) (nat col) of
               Inl e \<Rightarrow> (s, Inl e)
             | Inr (game', all_open) \<Rightarrow>
                 if all_open then end_game (s(game_token \<mapsto> game')) game_token game'
                 else (s(game_token \<mapsto> game'), Inr game')))"

section \<open>Requests and runs\<close>

text \<open>
  The timer armed by \<open>start\<close> calls \<open>end\<close> on its session. \<open>timer_fires\<close> is that
  call for the session stored under \<open>loc\<close>. A session that has left the dictionary through
  \<open>end\<close> has its flag set, so the call of its timer changes nothing. A request is a call
  of one of the three handlers or the firing of a timer; the token, the clock reading and
  the random source of a creation are part of the request.
\<close>

definition timer_fires :: "token2game \<Rightarrow> string \<Rightarrow> token2game" where
  "timer_fires s loc = (case s loc of None \<Rightarrow> s | Some self \<Rightarrow> fst (end_game s loc self))"

datatype request =
    Create string real "nat \<Rightarrow> nat"
  | Get string
  | Open_pic string int int
  | Timer string

fun step :: "token2game \<Rightarrow> request \<Rightarrow> token2game" where
  "step s (Create tok now rnd) = fst (create_game s tok now rnd)"
| "step s (Get tok) = s"
| "step s (Open_pic tok row col) = fst (open_game_pic s tok row col)"
| "step s (Timer tok) = timer_fires s tok"

fun run :: "token2game \<Rightarrow> request list \<Rightarrow> token2game" where
  "run s [] = s"
| "run s (rq # rqs) = run (step s rq) rqs"

text \<open>The tokens that the \<open>Create\<close> requests of a run hand out.\<close>

fun created :: "request list \<Rightarrow> string list" where
  "created [] = []"
| "created (Create tok now rnd # rqs) = tok # created rqs"
| "created (rq # rqs) = created rqs"


section \<open>The responses\<close>

text \<open>
  The three handlers declare \<open>response_model=Game\<close>: the response is the session
  serialised with the fields that \<open>Game\<close> declares, each item with the fields that \<open>Item\<close>
  declares, and the status as the string value of the enum.
\<close>

datatype json =
    JInt int
  | JFloat real
  | JBool bool
  | JStr string
  | JList "json list"
  | JObj "(string \<times> json) list"

fun ImgStatus_value :: "ImgStatus \<Rightarrow> string" where
  "ImgStatus_value CLOSED = ''CLOSED''"
| "ImgStatus_value TEMP_OPEN = ''TEMP_OPEN''"
| "ImgStatus_value OPEN = ''OPEN''"
| "ImgStatus_value CLOSING = ''CLOSING''"

definition Item_json :: "Item \<Rightarrow> json" where
  "Item_json item =
     JObj [(''photoId'', JInt (photoId item)),
           (''status'', JStr (ImgStatus_value (status item)))]"

definition Game_json :: "GameWithExtras \<Rightarrow> json" where
  "Game_json game =
     JObj [(''token'', JStr (token game)),
           (''items'', JList (map (\<lambda>item_row. JList (map Item_json item_row)) (items game))),
           (''ended'', JBool (ended game)),
           (''started_at'', JFloat (started_at game)),
           (''score'', JInt (score game))]"

text \<open>What a caller reads from a response: a field of an object, an entry of a list.\<close>

fun json_field :: "string \<Rightarrow> json \<Rightarrow> json option" where
  "json_field k (JObj kvs) = map_of kvs k"
| "json_field k _ = None"

fun json_entry :: "nat \<Rightarrow> json \<Rightarrow> json option" where
  "json_entry i (JList js) = (if i < length js then Some (js ! i) else None)"
| "json_entry i _ = None"

text \<open>The tile at a position of the grid of a response.\<close>

definition json_tile :: "json \<Rightarrow> pos \<Rightarrow> json option" where
  "json_tile response p =
     Option.bind (Option.bind (json_field ''items'' response) (json_entry (fst p)))
       (json_entry (snd p))"

section \<open>Predicates of the properties\<close>

text \<open>A board of four rows of four items.\<close>

definition board4x4 :: "Item list list \<Rightarrow> bool" where
  "board4x4 its \<longleftrightarrow> length its = 4 \<and> list_all (\<lambda>item_row. length item_row = 4) its"

text \<open>The pair ids of a board, row by row, and all of them in row-major order.\<close>

definition photo_grid :: "Item list list \<Rightarrow> int list list" where
  "photo_grid its = map (map photoId) its"

definition photo_ids :: "Item list list \<Rightarrow> int list" where
  "photo_ids its = map photoId (concat its)"

text \<open>The positions of a board whose item has a given status.\<close>

definition with_status :: "Item list list \<Rightarrow> ImgStatus \<Rightarrow> pos set" where
  "with_status its st = {p. valid_pos its p \<and> status (item_at its p) = st}"

text \<open>Row-major order of positions.\<close>

definition before :: "pos \<Rightarrow> pos \<Rightarrow> bool" where
  "before p q \<longleftrightarrow> fst p < fst q \<or> (fst p = fst q \<and> snd p < snd q)"

section \<open>Example runs\<close>

text \<open>
  A random source that always yields 0; the board it gives has the pair ids
  \<open>[[1, 2, 3, 4], [5, 6, 7, 0], [1, 2, 3, 4], [5, 6, 7, 0]]\<close>.
\<close>

definition rnd0 :: "nat \<Rightarrow> nat" where
  "rnd0 i = 0"

text \<open>One session and its first pick.\<close>

definition first_pick :: "request list" where
  "first_pick = [Create ''t'' 0 rnd0, Open_pic ''t'' 0 0]"

text \<open>A first turn that ends in a mismatch: the pair ids 1 and 2.\<close>

definition mismatch :: "request list" where
  "mismatch = [Create ''t'' 0 rnd0, Open_pic ''t'' 0 0, Open_pic ''t'' 0 1]"



text \<open>
  The fifteen reveals that open seven pairs and pick the first tile of the eighth; the reveal
  of \<open>(3, 3)\<close> then wins. After the win: a lookup, another session \<open>u\<close> and its first
  pick, and the timer of the ended session.
\<close>

definition win_run :: "request list" where
  "win_run =
     [Create ''t'' 0 rnd0,
      Open_pic ''t'' 0 0, Open_pic ''t'' 2 0, Open_pic ''t'' 0 1, Open_pic ''t'' 2 1,
      Open_pic ''t'' 0 2, Open_pic ''t'' 2 2, Open_pic ''t'' 0 3, Open_pic ''t'' 2 3,
      Open_pic ''t'' 1 0, Open_pic ''t'' 3 0, Open_pic ''t'' 1 1, Open_pic ''t'' 3 1,
      Open_pic ''t'' 1 2, Open_pic ''t'' 3 2, Open_pic ''t'' 1 3]"

definition after_win :: "request list" where
  "after_win = [Get ''t'', Create ''u'' 1 rnd0, Open_pic ''u'' 0 0, Timer ''t'']"

section \<open>Notions for the proofs\<close>

text \<open>What the scan does to one item.\<close>

definition closed_if_closing :: "Item \<Rightarrow> Item" where
  "closed_if_closing item = (if status item = CLOSING then item\<lparr>status := CLOSED\<rparr> else item)"

text \<open>The board that the scan of a request at \<open>(row, col)\<close> leaves.\<close>

definition scanned :: "Item list list \<Rightarrow> nat \<Rightarrow> nat \<Rightarrow> Item list list" where
  "scanned its row col = snd (scan_rows 0 (set_status its (row, col) TEMP_OPEN))"

text \<open>
  The session after the branch on \<open>item1.photoId == item2.photoId\<close>. The scan changes no
  pair id, so the ids are read from the board before the request.
\<close>

definition resolved :: "GameWithExtras \<Rightarrow> nat \<Rightarrow> nat \<Rightarrow> pos \<Rightarrow> pos \<Rightarrow> GameWithExtras" where
  "resolved game row col item1 item2 =
     (if photoId (item_at (items game) item1) = photoId (item_at (items game) item2)
      then game\<lparr>items := set_status (set_status (scanned (items game) row col) item1 OPEN) item2 OPEN,
                score := score game + 30\<rparr>
      else game\<lparr>items := set_status (set_status (scanned (items game) row col) item1 CLOSING) item2 CLOSING,
                score := score game - 10\<rparr>)"

text \<open>The positions of the \<open>TEMP_OPEN\<close> items of a board, in row-major order.\<close>

definition temp_open :: "Item list list \<Rightarrow> pos list" where
  "temp_open its = fst (scan_rows 0 its)"

text \<open>
  What every session of a run satisfies. The board has four rows of four items and holds
  the pair ids of \<open>photos0\<close>; at most one item is \<open>TEMP_OPEN\<close>, and none is while an item
  is \<open>CLOSING\<close>; the session is stored under its own token and has not ended.
\<close>

definition board_ok :: "Item list list \<Rightarrow> bool" where
  "board_ok its \<longleftrightarrow> board4x4 its \<and> mset (photo_ids its) = mset photos0"

definition turn_ok :: "Item list list \<Rightarrow> bool" where
  "turn_ok its \<longleftrightarrow>
     length (temp_open its) \<le> 1 \<and> (temp_open its \<noteq> [] \<longrightarrow> CLOSING \<notin> status ` set (concat its))"

definition session_ok :: "string \<Rightarrow> GameWithExtras \<Rightarrow> bool" where
  "session_ok tok game \<longleftrightarrow>
     token game = tok \<and> \<not> ended game \<and> board_ok (items game) \<and> turn_ok (items game)"

definition store_ok :: "token2game \<Rightarrow> bool" where
  "store_ok s \<longleftrightarrow> (\<forall>tok game. s tok = Some game \<longrightarrow> session_ok tok game)"

section \<open>The scan\<close>

lemma scan_row_snd: "snd (scan_row r c xs) = map closed_if_closing xs"
  by (induction xs arbitrary: c) (simp_all add: closed_if_closing_def case_prod_beta)

lemma scan_rows_snd: "snd (scan_rows r its) = map (map closed_if_closing) its"
proof (induction its arbitrary: r)
  case Nil
  show ?case by simp
next
  case (Cons item_row rows)
  have "snd (scan_row r 0 item_row) = map closed_if_closing item_row"
    by (rule scan_row_snd)
  moreover have "snd (scan_rows (Suc r) rows) = map (map closed_if_closing) rows"
    by (rule Cons.IH)
  ultimately show ?case by (simp add: case_prod_beta)
qed

lemma scan_row_fst_set:
  "set (fst (scan_row r c xs)) = {(r, c + k) | k. k < length xs \<and> status (xs ! k) = TEMP_OPEN}"
proof (induction xs arbitrary: c)
  case Nil
  show ?case by simp
next
  case (Cons x xs)
  have step: "set (fst (scan_row r c (x # xs))) =
      (if status x = TEMP_OPEN then {(r, c)} else {}) \<union> set (fst (scan_row r (Suc c) xs))"
    by (simp add: case_prod_beta)
  have shift: "{(r, c + k) | k. k < length (x # xs) \<and> status ((x # xs) ! k) = TEMP_OPEN} =
      (if status x = TEMP_OPEN then {(r, c)} else {}) \<union>
      {(r, Suc c + k) | k. k < length xs \<and> status (xs ! k) = TEMP_OPEN}"
    (is "?L = ?R")
  proof (rule set_eqI)
    fix p
    show "p \<in> ?L \<longleftrightarrow> p \<in> ?R"
    proof
      assume "p \<in> ?L"
      then obtain k where k: "p = (r, c + k)" "k < length (x # xs)" "status ((x # xs) ! k) = TEMP_OPEN"
        by blast
      show "p \<in> ?R"
      proof (cases k)
        case 0
        with k show ?thesis by simp
      next
        case (Suc k')
        with k have "p = (r, Suc c + k')" "k' < length xs" "status (xs ! k') = TEMP_OPEN"
          by simp_all
        then show ?thesis by blast
      qed
    next
      assume "p \<in> ?R"
      then consider "status x = TEMP_OPEN" "p = (r, c)"
        | k' where "p = (r, Suc c + k')" "k' < length xs" "status (xs ! k') = TEMP_OPEN"
        by (auto split: if_splits)
      then show "p \<in> ?L"
      proof cases
        case 1
        then have "p = (r, c + 0) \<and> 0 < length (x # xs) \<and> status ((x # xs) ! 0) = TEMP_OPEN"
          by simp
        then show ?thesis by blast
      next
        case 2
        then have "p = (r, c + Suc k') \<and> Suc k' < length (x # xs) \<and>
            status ((x # xs) ! Suc k') = TEMP_OPEN"
          by simp
        then show ?thesis by blast
      qed
    qed
  qed
  show ?case unfolding step shift Cons.IH ..
qed

lemma scan_rows_fst_set:
  "set (fst (scan_rows r its)) =
     {(r + i, k) | i k. i < length its \<and> k < length (its ! i) \<and> status (its ! i ! k) = TEMP_OPEN}"
proof (induction its arbitrary: r)
  case Nil
  show ?case by simp
next
  case (Cons row rows)
  have step: "set (fst (scan_rows r (row # rows))) =
      set (fst (scan_row r 0 row)) \<union> set (fst (scan_rows (Suc r) rows))"
    by (simp add: case_prod_beta)
  have shift: "{(r + i, k) | i k. i < length (row # rows) \<and> k < length ((row # rows) ! i) \<and>
        status ((row # rows) ! i ! k) = TEMP_OPEN} =
      {(r, 0 + k) | k. k < length row \<and> status (row ! k) = TEMP_OPEN} \<union>
      {(Suc r + i, k) | i k. i < length rows \<and> k < length (rows ! i) \<and>
        status (rows ! i ! k) = TEMP_OPEN}"
    (is "?L = ?R")
  proof (rule set_eqI)
    fix p
    show "p \<in> ?L \<longleftrightarrow> p \<in> ?R"
    proof
      assume "p \<in> ?L"
      then obtain i k where ik: "p = (r + i, k)" "i < length (row # rows)"
          "k < length ((row # rows) ! i)" "status ((row # rows) ! i ! k) = TEMP_OPEN"
        by blast
      show "p \<in> ?R"
      proof (cases i)
        case 0
        with ik show ?thesis by simp
      next
        case (Suc i')
        with ik have "p = (Suc r + i', k)" "i' < length rows" "k < length (rows ! i')"
            "status (rows ! i' ! k) = TEMP_OPEN"
          by simp_all
        then show ?thesis by blast
      qed
    next
      assume "p \<in> ?R"
      then consider k where "p = (r, k)" "k < length row" "status (row ! k) = TEMP_OPEN"
        | i' k where "p = (Suc r + i', k)" "i' < length rows" "k < length (rows ! i')"
            "status (rows ! i' ! k) = TEMP_OPEN"
        by auto
      then show "p \<in> ?L"
      proof cases
        case 1
        then have "p = (r + 0, k) \<and> 0 < length (row # rows) \<and> k < length ((row # rows) ! 0) \<and>
            status ((row # rows) ! 0 ! k) = TEMP_OPEN"
          by simp
        then show ?thesis by blast
      next
        case 2
        then have "p = (r + Suc i', k) \<and> Suc i' < length (row # rows) \<and>
            k < length ((row # rows) ! Suc i') \<and> status ((row # rows) ! Suc i' ! k) = TEMP_OPEN"
          by simp
        then show ?thesis by blast
      qed
    qed
  qed
  show ?case unfolding step shift scan_row_fst_set Cons.IH ..
qed

lemma set_temp_opened: "set (fst (scan_rows 0 its)) = with_status its TEMP_OPEN"
  unfolding scan_rows_fst_set with_status_def valid_pos_def item_at_def by auto

lemma scan_row_sorted: "sorted_wrt before (fst (scan_row r c xs))"
proof (induction xs arbitrary: c)
  case Nil
  show ?case by simp
next
  case (Cons x xs)
  have "\<forall>q \<in> set (fst (scan_row r (Suc c) xs)). before (r, c) q"
    unfolding scan_row_fst_set before_def by auto
  with Cons.IH [of "Suc c"] show ?case
    by (simp add: case_prod_beta)
qed

lemma scan_rows_sorted: "sorted_wrt before (fst (scan_rows r its))"
proof (induction its arbitrary: r)
  case Nil
  show ?case by simp
next
  case (Cons row rows)
  have "\<forall>p \<in> set (fst (scan_row r 0 row)). \<forall>q \<in> set (fst (scan_rows (Suc r) rows)). before p q"
    unfolding scan_row_fst_set scan_rows_fst_set before_def by auto
  with Cons.IH [of "Suc r"] scan_row_sorted [of r 0 row] show ?case
    by (simp add: sorted_wrt_append case_prod_beta)
qed

lemma sorted_before_distinct: "sorted_wrt before ps \<Longrightarrow> distinct ps"
  by (induction ps) (auto simp: before_def)

lemma distinct_temp_opened: "distinct (fst (scan_rows r its))"
  by (rule sorted_before_distinct) (rule scan_rows_sorted)

section \<open>Boards and positions\<close>

lemma length_set_status: "length (set_status its p st) = length its"
  by (simp add: set_status_def)

lemma nth_set_status:
  "set_status its p st ! r =
     (if r = fst p \<and> r < length its
      then (its ! r)[snd p := (its ! r ! snd p)\<lparr>status := st\<rparr>] else its ! r)"
proof (cases "fst p < length its")
  case True
  then show ?thesis by (auto simp: set_status_def nth_list_update)
next
  case False
  then have "set_status its p st = its" by (simp add: set_status_def not_less list_update_beyond)
  with False show ?thesis by auto
qed

lemma valid_pos_set_status: "valid_pos (set_status its p st) q = valid_pos its q"
  by (simp add: valid_pos_def length_set_status nth_set_status)

lemma item_at_set_status_same:
  "valid_pos its p \<Longrightarrow> item_at (set_status its p st) p = (item_at its p)\<lparr>status := st\<rparr>"
  by (simp add: valid_pos_def item_at_def nth_set_status)

lemma item_at_set_status_other: "q \<noteq> p \<Longrightarrow> item_at (set_status its p st) q = item_at its q"
proof -
  assume "q \<noteq> p"
  then have "fst q \<noteq> fst p \<or> (fst q = fst p \<and> snd q \<noteq> snd p)"
    by (auto simp: prod_eq_iff)
  then show ?thesis
    by (auto simp: item_at_def nth_set_status)
qed

lemma status_set_status:
  "valid_pos its p \<Longrightarrow>
   status (item_at (set_status its p st) q) = (if q = p then st else status (item_at its q))"
  by (simp add: item_at_set_status_same item_at_set_status_other)

lemma photoId_set_status: "photoId (item_at (set_status its p st) q) = photoId (item_at its q)"
proof (cases "q = p")
  case False
  then show ?thesis by (simp add: item_at_set_status_other)
next
  case True
  show ?thesis
  proof (cases "valid_pos its p")
    case True
    with \<open>q = p\<close> show ?thesis by (simp add: item_at_set_status_same)
  next
    case False
    then have "set_status its p st = its"
      by (auto simp: valid_pos_def set_status_def not_less list_update_beyond)
    then show ?thesis by simp
  qed
qed

lemma photo_grid_set_status: "photo_grid (set_status its p st) = photo_grid its"
proof -
  have row: "map photoId (set_status its p st ! r) = map photoId (its ! r)" for r
  proof (rule nth_equalityI)
    show "length (map photoId (set_status its p st ! r)) = length (map photoId (its ! r))"
      by (simp add: nth_set_status)
  next
    fix i assume "i < length (map photoId (set_status its p st ! r))"
    then have i: "i < length (its ! r)" by (simp add: nth_set_status split: if_splits)
    show "map photoId (set_status its p st ! r) ! i = map photoId (its ! r) ! i"
    proof (cases "i = snd p")
      case True
      with i show ?thesis by (auto simp: nth_set_status)
    next
      case False
      with i show ?thesis by (auto simp: nth_set_status)
    qed
  qed
  show ?thesis
    unfolding photo_grid_def
    by (rule nth_equalityI) (simp_all add: length_set_status row)
qed

lemma valid_pos_map: "valid_pos (map (map f) its) p = valid_pos its p"
  by (auto simp: valid_pos_def)

lemma item_at_map: "valid_pos its p \<Longrightarrow> item_at (map (map f) its) p = f (item_at its p)"
  by (simp add: valid_pos_def item_at_def)

lemma photo_grid_closed: "photo_grid (map (map closed_if_closing) its) = photo_grid its"
  by (simp add: photo_grid_def closed_if_closing_def)

lemma photo_ids_grid: "photo_ids its = concat (photo_grid its)"
  by (simp add: photo_ids_def photo_grid_def map_concat)

lemma board4x4_lengths: "board4x4 its \<longleftrightarrow> map length its = [4, 4, 4, 4]"
proof
  assume "board4x4 its"
  then have len: "length its = 4" and rows: "\<forall>r < 4. length (its ! r) = 4"
    by (simp_all add: board4x4_def list_all_length)
  show "map length its = [4, 4, 4, 4]"
  proof (rule nth_equalityI)
    show "length (map length its) = length [4, 4, 4, 4 :: nat]" using len by simp
  next
    fix i assume "i < length (map length its)"
    with len have "i < 4" by simp
    then have "i = 0 \<or> i = 1 \<or> i = 2 \<or> i = 3" by arith
    with len rows show "map length its ! i = [4, 4, 4, 4] ! i" by auto
  qed
next
  assume eq: "map length its = [4, 4, 4, 4]"
  then have "length (map length its) = 4" by simp
  then have len: "length its = 4" by simp
  have "\<forall>n \<in> set (map length its). n = 4" unfolding eq by simp
  then have "list_all (\<lambda>item_row. length item_row = 4) its"
    by (simp add: list_all_iff)
  with len show "board4x4 its" by (simp add: board4x4_def)
qed

lemma board4x4_grid: "board4x4 its \<longleftrightarrow> map length (photo_grid its) = [4, 4, 4, 4]"
  by (simp add: board4x4_lengths photo_grid_def comp_def)

lemma board4x4_valid_pos: "board4x4 its \<Longrightarrow> valid_pos its p \<longleftrightarrow> fst p < 4 \<and> snd p < 4"
  by (auto simp: board4x4_def valid_pos_def list_all_length)

lemma board4x4_size: "board4x4 its \<Longrightarrow> length (concat its) = 16"
proof -
  assume "board4x4 its"
  then have "map length its = [4, 4, 4, 4]" by (simp add: board4x4_lengths)
  then show ?thesis by (simp add: length_concat)
qed

lemma item_at_in_concat: "valid_pos its p \<Longrightarrow> item_at its p \<in> set (concat its)"
  by (auto simp: valid_pos_def item_at_def intro!: bexI [of _ "its ! fst p"])

section \<open>The shuffle and the new board\<close>

lemma mset_shuffle_loop: "k \<le> length x - 1 \<Longrightarrow> mset (shuffle_loop rnd k x) = mset x"
proof (induction k arbitrary: x)
  case 0
  show ?case by simp
next
  case (Suc k)
  define j where "j = randbelow (rnd (Suc k)) (Suc k + 1)"
  define x' where "x' = x[Suc k := x ! j, j := x ! Suc k]"
  from Suc.prems have i: "Suc k < length x" by arith
  have "j < Suc k + 1" by (simp add: j_def randbelow_def)
  with i have j: "j < length x" by arith
  from j i have swap: "mset x' = mset x"
    unfolding x'_def by (rule mset_swap)
  then have "length x' = length x" by (rule mset_eq_length)
  with Suc.prems have "k \<le> length x' - 1" by simp
  then have "mset (shuffle_loop rnd k x') = mset x'" by (rule Suc.IH)
  with swap show ?case by (simp add: j_def x'_def Let_def)
qed

lemma mset_shuffle: "mset (shuffle rnd x) = mset x"
  unfolding shuffle_def by (rule mset_shuffle_loop) simp

lemma length_shuffle: "length (shuffle rnd x) = length x"
  by (rule mset_eq_length) (rule mset_shuffle)

lemma length_photos0: "length photos0 = 16"
  by (simp add: photos0_def)

lemma upt_4: "[0..<4] = [0, 1, 2, 3]"
  by code_simp

lemma four_slices:
  assumes "length xs = 16"
  shows "concat (map (\<lambda>i. slice (i * 4) ((i + 1) * 4) xs) [0..<4]) = xs"
proof -
  have a: "take 4 (drop 8 xs) @ take 4 (drop 12 xs) = take 8 (drop 8 xs)"
    using take_add [of 4 4 "drop 8 xs"] by simp
  have b: "take 4 (drop 4 xs) @ take 8 (drop 8 xs) = take 12 (drop 4 xs)"
    using take_add [of 4 8 "drop 4 xs"] by simp
  have c: "take 4 xs @ take 12 (drop 4 xs) = take 16 xs"
    using take_add [of 4 12 xs] by simp
  have "concat (map (\<lambda>i. slice (i * 4) ((i + 1) * 4) xs) [0..<4]) =
      take 4 xs @ take 4 (drop 4 xs) @ take 4 (drop 8 xs) @ take 4 (drop 12 xs)"
    by (simp add: upt_4 slice_def)
  also have "\<dots> = take 16 xs" by (simp only: a b c)
  also have "\<dots> = xs" using assms by simp
  finally show ?thesis .
qed

lemma createItems_rows:
  "createItems rnd [] =
     map (\<lambda>i. map new_Item (slice (i * 4) ((i + 1) * 4) (shuffle rnd photos0))) [0..<4]"
  by (simp add: createItems_def)

lemma photo_ids_createItems: "photo_ids (createItems rnd []) = shuffle rnd photos0"
proof -
  have "photo_ids (createItems rnd []) =
      concat (map (\<lambda>i. slice (i * 4) ((i + 1) * 4) (shuffle rnd photos0)) [0..<4])"
    by (simp add: photo_ids_def createItems_rows map_concat comp_def new_Item_def)
  also have "\<dots> = shuffle rnd photos0"
    by (rule four_slices) (simp add: length_shuffle length_photos0)
  finally show ?thesis .
qed

lemma board4x4_createItems: "board4x4 (createItems rnd [])"
proof -
  have "length (shuffle rnd photos0) = 16"
    by (simp add: length_shuffle length_photos0)
  then show ?thesis
    by (simp add: board4x4_lengths createItems_rows upt_4 slice_def)
qed

lemma status_createItems:
  "item \<in> set (concat (createItems rnd [])) \<Longrightarrow> status item = CLOSING"
  by (auto simp: createItems_rows new_Item_def)

lemma board_ok_createItems: "board_ok (createItems rnd [])"
  by (simp add: board_ok_def board4x4_createItems photo_ids_createItems mset_shuffle)

lemma set_photos0: "set photos0 = {0, 1, 2, 3, 4, 5, 6, 7}"
  by code_simp

lemma count_photos0: "\<forall>p \<in> set photos0. count_list photos0 p = 2"
  by code_simp

lemma pairs_of_mset:
  assumes "mset ids = mset photos0"
  shows "length ids = 16 \<and> card (set ids) = 8 \<and> (\<forall>p \<in> set ids. count_list ids p = 2)"
proof -
  have len: "length ids = 16"
    using mset_eq_length [OF assms] by (simp add: length_photos0)
  have set: "set ids = set photos0"
    using assms by (rule mset_eq_setD)
  have "card (set photos0) = 8" unfolding set_photos0 by simp
  with set have card: "card (set ids) = 8" by simp
  have "count_list ids p = count_list photos0 p" for p
    using assms by (metis count_mset)
  with set count_photos0 have "\<forall>p \<in> set ids. count_list ids p = 2" by simp
  with len card show ?thesis by simp
qed

section \<open>The body of the request\<close>

lemma scanned_eq:
  "scanned its row col = map (map closed_if_closing) (set_status its (row, col) TEMP_OPEN)"
  by (simp add: scanned_def scan_rows_snd)

lemma valid_pos_scanned: "valid_pos (scanned its row col) q = valid_pos its q"
  by (simp add: scanned_eq valid_pos_map valid_pos_set_status)

lemma photo_grid_scanned: "photo_grid (scanned its row col) = photo_grid its"
  by (simp add: scanned_eq photo_grid_closed photo_grid_set_status)

lemma photoId_closed_if_closing: "photoId (closed_if_closing item) = photoId item"
  by (simp add: closed_if_closing_def)

lemma photoId_scanned:
  "valid_pos its q \<Longrightarrow> photoId (item_at (scanned its row col) q) = photoId (item_at its q)"
  by (simp add: scanned_eq item_at_map valid_pos_set_status photoId_closed_if_closing
      photoId_set_status)

lemma status_scanned:
  assumes "valid_pos its (row, col)" and "valid_pos its q"
  shows "status (item_at (scanned its row col) q) =
     (if q = (row, col) then TEMP_OPEN
      else if status (item_at its q) = CLOSING then CLOSED else status (item_at its q))"
proof -
  have "status (item_at (scanned its row col) q) =
      status (closed_if_closing (item_at (set_status its (row, col) TEMP_OPEN) q))"
    using assms(2) by (simp add: scanned_eq item_at_map valid_pos_set_status)
  then show ?thesis
    using assms(1) by (simp add: closed_if_closing_def status_set_status)
qed

lemma set_selected:
  "valid_pos its (row, col) \<Longrightarrow>
   set (selected its row col) = insert (row, col) (with_status its TEMP_OPEN)"
  unfolding selected_def set_temp_opened with_status_def
  by (auto simp: valid_pos_set_status status_set_status)

lemma distinct_selected: "distinct (selected its row col)"
  unfolding selected_def by (rule distinct_temp_opened)

lemma sorted_selected: "sorted_wrt before (selected its row col)"
  unfolding selected_def by (rule scan_rows_sorted)

lemma selected_valid: "p \<in> set (selected its row col) \<Longrightarrow> valid_pos its p"
  unfolding selected_def set_temp_opened with_status_def
  by (simp add: valid_pos_set_status)

lemma open_pic_IndexError:
  "\<not> valid_pos (items game) (row, col) \<Longrightarrow> open_pic game row col = Inl IndexError"
  by (simp add: open_pic_def)

lemma open_pic_Conflict:
  "valid_pos (items game) (row, col) \<Longrightarrow>
   status (item_at (items game) (row, col)) \<in> {OPEN, TEMP_OPEN} \<Longrightarrow>
   open_pic game row col = Inl Conflict"
  by (simp add: open_pic_def)

lemma open_pic_single:
  assumes "valid_pos (items game) (row, col)"
    and "status (item_at (items game) (row, col)) \<notin> {OPEN, TEMP_OPEN}"
    and "length (selected (items game) row col) < 2"
  shows "open_pic game row col = Inr (game\<lparr>items := scanned (items game) row col\<rparr>, False)"
  using assms by (simp add: open_pic_def selected_def scanned_def case_prod_beta Let_def)

lemma open_pic_pair:
  assumes "valid_pos (items game) (row, col)"
    and "status (item_at (items game) (row, col)) \<notin> {OPEN, TEMP_OPEN}"
    and sel: "selected (items game) row col = item1 # item2 # rest"
  shows "open_pic game row col =
     Inr (resolved game row col item1 item2,
          length (opened (items (resolved game row col item1 item2))) = 16)"
proof -
  from sel have "item1 \<in> set (selected (items game) row col)"
      and "item2 \<in> set (selected (items game) row col)"
    by simp_all
  then have "valid_pos (items game) item1" and "valid_pos (items game) item2"
    by (simp_all add: selected_valid)
  then have ids: "photoId (item_at (scanned (items game) row col) item1) =
        photoId (item_at (items game) item1)"
      "photoId (item_at (scanned (items game) row col) item2) =
        photoId (item_at (items game) item2)"
    by (simp_all add: photoId_scanned)
  from sel have fst: "fst (scan_rows 0 (set_status (items game) (row, col) TEMP_OPEN)) =
      item1 # item2 # rest"
    by (simp add: selected_def)
  have snd: "snd (scan_rows 0 (set_status (items game) (row, col) TEMP_OPEN)) =
      scanned (items game) row col"
    by (simp add: scanned_def)
  show ?thesis
    using assms(1,2) ids
    by (simp add: open_pic_def case_prod_beta Let_def fst snd resolved_def)
qed

section \<open>The selection of a turn\<close>

lemma set_temp_open: "set (temp_open its) = with_status its TEMP_OPEN"
  unfolding temp_open_def by (rule set_temp_opened)

lemma scan_row_fst_closed: "fst (scan_row r c (map closed_if_closing xs)) = fst (scan_row r c xs)"
  by (induction xs arbitrary: c) (simp_all add: case_prod_beta closed_if_closing_def)

lemma scan_rows_fst_closed:
  "fst (scan_rows r (map (map closed_if_closing) its)) = fst (scan_rows r its)"
  by (induction its arbitrary: r) (simp_all add: case_prod_beta scan_row_fst_closed)

lemma temp_open_scanned: "temp_open (scanned its row col) = selected its row col"
  by (simp add: temp_open_def scanned_eq scan_rows_fst_closed selected_def)

lemma length_selected:
  assumes "valid_pos its (row, col)"
  shows "length (selected its row col) \<le> Suc (length (temp_open its))"
proof -
  have "length (selected its row col) = card (set (selected its row col))"
    using distinct_selected by (simp add: distinct_card)
  also have "\<dots> = card (insert (row, col) (set (temp_open its)))"
    using assms by (simp add: set_selected set_temp_open)
  also have "\<dots> \<le> Suc (card (set (temp_open its)))"
    by (simp add: card_insert_if)
  also have "\<dots> \<le> Suc (length (temp_open its))"
    by (simp add: card_length)
  finally show ?thesis .
qed

lemma addressed_selected: "valid_pos its (row, col) \<Longrightarrow> (row, col) \<in> set (selected its row col)"
  by (simp add: set_selected)

lemma no_closing_scanned: "CLOSING \<notin> status ` set (concat (scanned its row col))"
proof -
  have "concat (scanned its row col) =
      map closed_if_closing (concat (set_status its (row, col) TEMP_OPEN))"
    by (simp add: scanned_eq map_concat)
  then show ?thesis by (auto simp: closed_if_closing_def)
qed

lemma temp_open_empty: "temp_open its = [] \<longleftrightarrow> with_status its TEMP_OPEN = {}"
  using set_temp_open [of its] by auto

section \<open>The handler\<close>

lemma open_game_pic_NotFound: "s tok = None \<Longrightarrow> open_game_pic s tok row col = (s, Inl NotFound)"
  by (simp add: open_game_pic_def get_game_by_token_def)

lemma open_game_pic_RangeError:
  "s tok = Some game \<Longrightarrow> \<not> (0 \<le> row \<and> row \<le> 3 \<and> 0 \<le> col \<and> col \<le> 3) \<Longrightarrow>
   open_game_pic s tok row col = (s, Inl RangeError)"
  by (simp add: open_game_pic_def get_game_by_token_def)

lemma open_game_pic_body:
  "s tok = Some game \<Longrightarrow> 0 \<le> row \<Longrightarrow> row \<le> 3 \<Longrightarrow> 0 \<le> col \<Longrightarrow> col \<le> 3 \<Longrightarrow>
   open_game_pic s tok row col =
     (case open_pic game (nat row) (nat col) of
        Inl e \<Rightarrow> (s, Inl e)
      | Inr (game', all_open) \<Rightarrow>
          if all_open then end_game (s(tok \<mapsto> game')) tok game'
          else (s(tok \<mapsto> game'), Inr game'))"
  by (simp add: open_game_pic_def get_game_by_token_def)

lemma end_game_ok:
  "token game = tok \<Longrightarrow> \<not> ended game \<Longrightarrow>
   end_game (s(tok \<mapsto> game)) tok game =
     (s(tok := None), Inr (game\<lparr>ended := True, ended_event := True\<rparr>))"
  by (simp add: end_game_def Let_def)

lemma in_range_valid:
  "board4x4 its \<Longrightarrow> 0 \<le> row \<Longrightarrow> row \<le> 3 \<Longrightarrow> 0 \<le> col \<Longrightarrow> col \<le> 3 \<Longrightarrow>
   valid_pos its (nat row, nat col)"
  by (simp add: board4x4_valid_pos) arith

lemma selected_one_or_two:
  assumes "valid_pos its (row, col)" and "turn_ok its"
  shows "selected its row col = [(row, col)] \<or>
     (\<exists>item1 item2. selected its row col = [item1, item2])"
proof -
  from assms have "length (selected its row col) \<le> 2"
    using length_selected [of its row col] by (simp add: turn_ok_def)
  moreover from assms(1) have "(row, col) \<in> set (selected its row col)"
    by (rule addressed_selected)
  ultimately show ?thesis
    by (cases "selected its row col" rule: list.exhaust)
      (auto simp: le_Suc_eq numeral_2_eq_2 length_Suc_conv)
qed


lemma status_resolved:
  assumes "valid_pos (items game) item1" and "valid_pos (items game) item2"
    and "valid_pos (items game) q"
  shows "status (item_at (items (resolved game row col item1 item2)) q) =
     (if q = item1 \<or> q = item2
      then (if photoId (item_at (items game) item1) = photoId (item_at (items game) item2)
            then OPEN else CLOSING)
      else status (item_at (scanned (items game) row col) q))"
  using assms
  by (simp add: resolved_def status_set_status valid_pos_set_status valid_pos_scanned)

lemma photo_grid_resolved:
  "photo_grid (items (resolved game row col item1 item2)) = photo_grid (items game)"
  by (simp add: resolved_def photo_grid_set_status photo_grid_scanned)


lemma token_resolved: "token (resolved game row col item1 item2) = token game"
  and ended_resolved: "ended (resolved game row col item1 item2) = ended game"
  by (simp_all add: resolved_def)

lemma valid_pos_photo_grid:
  "photo_grid its' = photo_grid its \<Longrightarrow> valid_pos its' q = valid_pos its q"
proof -
  assume eq: "photo_grid its' = photo_grid its"
  then have "map length (photo_grid its') = map length (photo_grid its)" by simp
  then have "map length its' = map length its" by (simp add: photo_grid_def comp_def)
  then have len: "length its' = length its" and "\<forall>r < length its. length (its' ! r) = length (its ! r)"
    by (metis length_map, metis length_map nth_map)
  then show ?thesis by (auto simp: valid_pos_def)
qed

lemma board_ok_photo_grid:
  "photo_grid its' = photo_grid its \<Longrightarrow> board_ok its' = board_ok its"
  by (simp add: board_ok_def board4x4_grid photo_ids_grid)

lemma turn_ok_scanned:
  "length (selected its row col) < 2 \<Longrightarrow> turn_ok (scanned its row col)"
  using no_closing_scanned [of its row col] by (simp add: turn_ok_def temp_open_scanned)

lemma temp_open_resolved:
  assumes sel: "selected (items game) row col = [item1, item2]"
  shows "temp_open (items (resolved game row col item1 item2)) = []"
proof -
  let ?its' = "items (resolved game row col item1 item2)"
  from sel have v: "valid_pos (items game) item1" "valid_pos (items game) item2"
    using selected_valid [of _ "items game" row col] by simp_all
  have "q \<notin> with_status ?its' TEMP_OPEN" for q
  proof
    assume "q \<in> with_status ?its' TEMP_OPEN"
    then have q: "valid_pos ?its' q" "status (item_at ?its' q) = TEMP_OPEN"
      by (simp_all add: with_status_def)
    from q(1) have vq: "valid_pos (items game) q"
      by (simp add: valid_pos_photo_grid [OF photo_grid_resolved])
    from q(2) have "q \<noteq> item1 \<and> q \<noteq> item2"
      using status_resolved [OF v vq, of row col] by (auto split: if_splits)
    moreover from this q(2) have "status (item_at (scanned (items game) row col) q) = TEMP_OPEN"
      using status_resolved [OF v vq, of row col] by simp
    then have "q \<in> with_status (scanned (items game) row col) TEMP_OPEN"
      using vq by (simp add: with_status_def valid_pos_scanned)
    then have "q \<in> set (selected (items game) row col)"
      by (simp add: set_temp_open [symmetric] temp_open_scanned)
    ultimately show False using sel by simp
  qed
  then show ?thesis by (auto simp: temp_open_empty)
qed

lemma turn_ok_resolved:
  "selected (items game) row col = [item1, item2] \<Longrightarrow>
   turn_ok (items (resolved game row col item1 item2))"
  by (simp add: turn_ok_def temp_open_resolved)

section \<open>Every run keeps the sessions well-formed\<close>

lemma session_ok_scanned:
  assumes "session_ok tok game" and "length (selected (items game) row col) < 2"
  shows "session_ok tok (game\<lparr>items := scanned (items game) row col\<rparr>)"
  using assms
  by (simp add: session_ok_def board_ok_photo_grid [OF photo_grid_scanned] turn_ok_scanned)

lemma session_ok_resolved:
  assumes "session_ok tok game" and "selected (items game) row col = [item1, item2]"
  shows "session_ok tok (resolved game row col item1 item2)"
  using assms
  by (simp add: session_ok_def token_resolved ended_resolved
      board_ok_photo_grid [OF photo_grid_resolved] turn_ok_resolved)

lemma open_game_pic_cases:
  assumes s: "s tok = Some game" and ok: "session_ok tok game"
    and range: "0 \<le> row" "row \<le> 3" "0 \<le> col" "col \<le> 3"
  obtains
    (conflict) "status (item_at (items game) (nat row, nat col)) \<in> {OPEN, TEMP_OPEN}"
      "open_game_pic s tok row col = (s, Inl Conflict)"
  | (single) game' where "status (item_at (items game) (nat row, nat col)) \<notin> {OPEN, TEMP_OPEN}"
      "selected (items game) (nat row) (nat col) = [(nat row, nat col)]"
      "game' = game\<lparr>items := scanned (items game) (nat row) (nat col)\<rparr>"
      "open_game_pic s tok row col = (s(tok \<mapsto> game'), Inr game')"
  | (pair) item1 item2 game' where
      "status (item_at (items game) (nat row, nat col)) \<notin> {OPEN, TEMP_OPEN}"
      "selected (items game) (nat row) (nat col) = [item1, item2]"
      "game' = resolved game (nat row) (nat col) item1 item2"
      "length (opened (items game')) \<noteq> 16"
      "open_game_pic s tok row col = (s(tok \<mapsto> game'), Inr game')"
  | (win) item1 item2 game' where
      "status (item_at (items game) (nat row, nat col)) \<notin> {OPEN, TEMP_OPEN}"
      "selected (items game) (nat row) (nat col) = [item1, item2]"
      "game' = resolved game (nat row) (nat col) item1 item2"
      "length (opened (items game')) = 16"
      "open_game_pic s tok row col =
         (s(tok := None), Inr (game'\<lparr>ended := True, ended_event := True\<rparr>))"
proof -
  from ok have b4: "board4x4 (items game)" and turn: "turn_ok (items game)"
    by (simp_all add: session_ok_def board_ok_def)
  from b4 range have valid: "valid_pos (items game) (nat row, nat col)"
    by (rule in_range_valid)
  note body = open_game_pic_body [of s tok game row col, OF s range]
  show ?thesis
  proof (cases "status (item_at (items game) (nat row, nat col)) \<in> {OPEN, TEMP_OPEN}")
    case True
    with valid have "open_pic game (nat row) (nat col) = Inl Conflict"
      by (rule open_pic_Conflict)
    with body have "open_game_pic s tok row col = (s, Inl Conflict)" by simp
    with True show ?thesis by (rule conflict)
  next
    case False
    from selected_one_or_two [OF valid turn] show ?thesis
    proof (elim disjE exE)
      assume sel: "selected (items game) (nat row) (nat col) = [(nat row, nat col)]"
      then have "length (selected (items game) (nat row) (nat col)) < 2" by simp
      with valid False have "open_pic game (nat row) (nat col) =
          Inr (game\<lparr>items := scanned (items game) (nat row) (nat col)\<rparr>, False)"
        by (rule open_pic_single)
      with body have "open_game_pic s tok row col =
          (s(tok \<mapsto> game\<lparr>items := scanned (items game) (nat row) (nat col)\<rparr>),
           Inr (game\<lparr>items := scanned (items game) (nat row) (nat col)\<rparr>))"
        by simp
      with False sel show ?thesis by (rule single [OF _ _ refl])
    next
      fix item1 item2
      assume sel: "selected (items game) (nat row) (nat col) = [item1, item2]"
      define game' where "game' = resolved game (nat row) (nat col) item1 item2"
      from valid False sel have op: "open_pic game (nat row) (nat col) =
          Inr (game', length (opened (items game')) = 16)"
        unfolding game'_def by (rule open_pic_pair)
      from ok sel have ok': "session_ok tok game'"
        unfolding game'_def by (rule session_ok_resolved)
      show ?thesis
      proof (cases "length (opened (items game')) = 16")
        case True
        from ok' have "end_game (s(tok \<mapsto> game')) tok game' =
            (s(tok := None), Inr (game'\<lparr>ended := True, ended_event := True\<rparr>))"
          by (simp add: end_game_ok session_ok_def)
        with body op True have "open_game_pic s tok row col =
            (s(tok := None), Inr (game'\<lparr>ended := True, ended_event := True\<rparr>))"
          by simp
        with False sel game'_def True show ?thesis by (rule win)
      next
        case no: False
        with body op have "open_game_pic s tok row col = (s(tok \<mapsto> game'), Inr game')"
          by simp
        with False sel game'_def no show ?thesis by (rule pair)
      qed
    qed
  qed
qed

lemma store_ok_open_game_pic:
  assumes "store_ok s"
  shows "store_ok (fst (open_game_pic s tok row col))"
proof (cases "s tok")
  case None
  with assms show ?thesis by (simp add: open_game_pic_NotFound)
next
  case (Some game)
  with assms have ok: "session_ok tok game" by (simp add: store_ok_def)
  show ?thesis
  proof (cases "0 \<le> row \<and> row \<le> 3 \<and> 0 \<le> col \<and> col \<le> 3")
    case False
    with Some assms show ?thesis by (simp add: open_game_pic_RangeError)
  next
    case True
    then have range: "0 \<le> row" "row \<le> 3" "0 \<le> col" "col \<le> 3" by simp_all
    from Some ok range show ?thesis
    proof (cases rule: open_game_pic_cases)
      case conflict
      with assms show ?thesis by simp
    next
      case (single game')
      from ok have "session_ok tok game'"
        unfolding single(3) by (rule session_ok_scanned) (simp add: single(2))
      with assms show ?thesis by (simp add: single(4) store_ok_def)
    next
      case (pair item1 item2 game')
      from ok pair(2) have "session_ok tok game'"
        unfolding pair(3) by (rule session_ok_resolved)
      with assms show ?thesis by (simp add: pair(5) store_ok_def)
    next
      case (win item1 item2 game')
      with assms show ?thesis by (simp add: store_ok_def)
    qed
  qed
qed

lemma temp_open_createItems: "temp_open (createItems rnd []) = []"
  unfolding temp_open_empty with_status_def
  using status_createItems [of _ rnd] item_at_in_concat [of "createItems rnd []"] by fastforce

lemma session_ok_create: "session_ok tok (snd (create_game s tok now rnd))"
  by (simp add: session_ok_def create_game_def new_GameWithExtras_def start_def Let_def
      board_ok_createItems turn_ok_def temp_open_createItems)

lemma store_ok_create_game: "store_ok s \<Longrightarrow> store_ok (fst (create_game s tok now rnd))"
proof -
  assume "store_ok s"
  moreover have "fst (create_game s tok now rnd) = s(tok \<mapsto> snd (create_game s tok now rnd))"
    by (simp add: create_game_def store_game_def new_GameWithExtras_def start_def Let_def)
  ultimately show ?thesis
    using session_ok_create [of tok s now rnd] by (simp add: store_ok_def)
qed

lemma timer_fires_ok:
  "store_ok s \<Longrightarrow> timer_fires s tok = s(tok := None)"
proof (cases "s tok")
  case None
  then have "s(tok := None) = s" by (simp add: fun_upd_idem)
  with None show ?thesis by (simp add: timer_fires_def)
next
  case (Some game)
  assume "store_ok s"
  with Some have "token game = tok" "\<not> ended game" by (simp_all add: store_ok_def session_ok_def)
  then have "end_game (s(tok \<mapsto> game)) tok game =
      (s(tok := None), Inr (game\<lparr>ended := True, ended_event := True\<rparr>))"
    by (rule end_game_ok)
  moreover from Some have "s(tok \<mapsto> game) = s" by (simp add: fun_upd_idem)
  ultimately show ?thesis using Some by (simp add: timer_fires_def)
qed

lemma store_ok_step: "store_ok s \<Longrightarrow> store_ok (step s rq)"
proof (cases rq)
  case (Create tok now rnd)
  assume "store_ok s"
  then show ?thesis unfolding Create step.simps by (rule store_ok_create_game)
next
  case (Get tok)
  assume "store_ok s"
  then show ?thesis by (simp add: Get)
next
  case (Open_pic tok row col)
  assume "store_ok s"
  then show ?thesis unfolding Open_pic step.simps by (rule store_ok_open_game_pic)
next
  case (Timer tok)
  assume "store_ok s"
  then show ?thesis by (simp add: Timer timer_fires_ok store_ok_def)
qed

lemma store_ok_run: "store_ok s \<Longrightarrow> store_ok (run s rqs)"
  by (induction rqs arbitrary: s) (simp_all add: store_ok_step)

lemma store_ok_empty: "store_ok Map.empty"
  by (simp add: store_ok_def)

lemma run_session_ok: "run Map.empty rqs tok = Some game \<Longrightarrow> session_ok tok game"
  using store_ok_run [OF store_ok_empty, of rqs] by (simp add: store_ok_def)

section \<open>What requests leave alone\<close>

lemma selected_single:
  assumes "valid_pos its (row, col)" and "temp_open its = []"
  shows "selected its row col = [(row, col)]"
proof -
  from assms have "length (selected its row col) \<le> 1"
    using length_selected [of its row col] by simp
  moreover from assms(1) have "(row, col) \<in> set (selected its row col)"
    by (rule addressed_selected)
  ultimately show ?thesis
    by (cases "selected its row col") auto
qed

text \<open>A token that is absent stays absent until a \<open>Create\<close> request hands it out again.\<close>

lemma end_game_absent:
  "s tok = None \<Longrightarrow> loc \<noteq> tok \<Longrightarrow> fst (end_game s loc self) tok = None"
  by (simp add: end_game_def Let_def)

lemma open_game_pic_absent: "s tok = None \<Longrightarrow> fst (open_game_pic s t row col) tok = None"
proof (cases "t = tok")
  case True
  assume "s tok = None"
  with True show ?thesis by (simp add: open_game_pic_NotFound)
next
  case False
  assume "s tok = None"
  with False show ?thesis
    by (auto simp: open_game_pic_def end_game_absent split: sum.splits prod.splits)
qed

lemma timer_fires_absent: "s tok = None \<Longrightarrow> timer_fires s t tok = None"
  by (cases "t = tok") (auto simp: timer_fires_def end_game_absent split: option.splits)

lemma create_game_other: "t \<noteq> tok \<Longrightarrow> fst (create_game s t now rnd) tok = s tok"
  by (simp add: create_game_def store_game_def new_GameWithExtras_def start_def Let_def)

lemma created_Cons: "created (rq # rqs) = created [rq] @ created rqs"
  by (cases rq) simp_all

lemma step_absent: "s tok = None \<Longrightarrow> tok \<notin> set (created [rq]) \<Longrightarrow> step s rq tok = None"
  by (cases rq) (simp_all add: create_game_other open_game_pic_absent timer_fires_absent)

lemma run_absent: "s tok = None \<Longrightarrow> tok \<notin> set (created rqs) \<Longrightarrow> run s rqs tok = None"
proof (induction rqs arbitrary: s)
  case Nil
  then show ?case by simp
next
  case (Cons rq rqs)
  from Cons.prems(2) have "tok \<notin> set (created [rq])" and rest: "tok \<notin> set (created rqs)"
    using created_Cons [of rq rqs] by simp_all
  with Cons.prems(1) have "step s rq tok = None" by (simp add: step_absent)
  then have "run (step s rq) rqs tok = None" using rest by (rule Cons.IH)
  then show ?case by simp
qed

lemma all_open_opened:
  "list_all (\<lambda>item. status item = OPEN) (concat its) \<Longrightarrow> length (opened its) = length (concat its)"
  by (simp add: opened_def list_all_iff)

text \<open>
  No request changes a pair id or the shape of a board: a reveal writes statuses only, the
  end of a session writes its flags, and both leave the other sessions alone.
\<close>

lemma open_game_pic_photo_grid:
  assumes "store_ok s" and "s tok = Some game"
  shows "(\<forall>game'. snd (open_game_pic s tok row col) = Inr game' \<longrightarrow>
            photo_grid (items game') = photo_grid (items game)) \<and>
         (\<forall>game'. fst (open_game_pic s tok row col) tok = Some game' \<longrightarrow>
            photo_grid (items game') = photo_grid (items game)) \<and>
         (\<forall>t. t \<noteq> tok \<longrightarrow> fst (open_game_pic s tok row col) t = s t)"
proof (cases "0 \<le> row \<and> row \<le> 3 \<and> 0 \<le> col \<and> col \<le> 3")
  case False
  with assms(2) show ?thesis by (simp add: open_game_pic_RangeError)
next
  case True
  then have range: "0 \<le> row" "row \<le> 3" "0 \<le> col" "col \<le> 3" by simp_all
  from assms have ok: "session_ok tok game" by (simp add: store_ok_def)
  from assms(2) ok range show ?thesis
  proof (cases rule: open_game_pic_cases [of s tok game row col])
    case conflict
    with assms(2) show ?thesis by simp
  next
    case (single g)
    then show ?thesis by (simp add: photo_grid_scanned)
  next
    case (pair i1 i2 g)
    then show ?thesis by (simp add: photo_grid_resolved)
  next
    case (win i1 i2 g)
    then show ?thesis by (simp add: photo_grid_resolved)
  qed
qed

lemma step_photo_grid:
  assumes "store_ok s" and "s t = Some game" and "step s rq t = Some game'"
    and "t \<notin> set (created [rq])"
  shows "photo_grid (items game') = photo_grid (items game)"
proof (cases rq)
  case (Create tok now rnd)
  with assms(4) have "t \<noteq> tok" by simp
  then have "step s rq t = s t" by (simp add: Create create_game_other)
  with assms(2,3) show ?thesis by simp
next
  case (Get tok)
  with assms(2,3) show ?thesis by simp
next
  case (Open_pic tok row col)
  show ?thesis
  proof (cases "s tok")
    case None
    with assms(2,3) show ?thesis by (simp add: Open_pic open_game_pic_NotFound)
  next
    case (Some g)
    show ?thesis
    proof (cases "t = tok")
      case True
      with assms(2,3) Some open_game_pic_photo_grid [OF assms(1) Some, of row col]
      show ?thesis by (simp add: Open_pic)
    next
      case False
      with assms(2,3) open_game_pic_photo_grid [OF assms(1) Some, of row col]
      show ?thesis by (simp add: Open_pic)
    qed
  qed
next
  case (Timer tok)
  with assms show ?thesis by (cases "t = tok") (simp_all add: timer_fires_ok)
qed

lemma run_photo_grid:
  assumes "store_ok s" and "s t = Some game" and "run s rqs t = Some game'"
    and "t \<notin> set (created rqs)"
  shows "photo_grid (items game') = photo_grid (items game)"
  using assms
proof (induction rqs arbitrary: s game)
  case Nil
  then show ?case by simp
next
  case (Cons rq rqs)
  from Cons.prems(4) have one: "t \<notin> set (created [rq])" and rest: "t \<notin> set (created rqs)"
    using created_Cons [of rq rqs] by simp_all
  from Cons.prems(1) have ok: "store_ok (step s rq)" by (rule store_ok_step)
  show ?case
  proof (cases "step s rq t")
    case None
    then have "run (step s rq) rqs t = None" using rest by (rule run_absent)
    with Cons.prems(3) show ?thesis by simp
  next
    case (Some g)
    with Cons.prems(1,2) one have "photo_grid (items g) = photo_grid (items game)"
      by (simp add: step_photo_grid)
    moreover from Cons.prems(3) have "run (step s rq) rqs t = Some game'" by simp
    with ok Some have "photo_grid (items game') = photo_grid (items g)"
      using rest by (rule Cons.IH)
    ultimately show ?thesis by simp
  qed
qed




section \<open>The new board\<close>

text \<open>
  Claim C1 says that every tile of a freshly built board is \<open>CLOSED\<close>. The declared
  default of \<open>Item.status\<close> is \<open>CLOSING\<close>, and \<open>createItems\<close> gives no status: the
  tile at the first position of a new session is not \<open>CLOSED\<close>.
\<close>

theorem new_board_closed_counterexample:
  "status (item_at (items (snd (create_game Map.empty ''t'' 0 rnd0))) (0, 0)) \<noteq> CLOSED"
  by code_simp

text \<open>
  Claim C1, amended: for every newly created session, whatever the store, the token, the
  clock and the random source, the board has four rows of four tiles, 16 in all, and every
  tile has status \<open>CLOSING\<close>.
\<close>

theorem new_board_all_closing:
  "board4x4 (items (snd (create_game s tok now rnd))) \<and>
   length (concat (items (snd (create_game s tok now rnd)))) = 16 \<and>
   list_all (\<lambda>item. status item = CLOSING) (concat (items (snd (create_game s tok now rnd))))"
proof -
  have its: "items (snd (create_game s tok now rnd)) = createItems rnd []"
    by (simp add: create_game_def new_GameWithExtras_def start_def Let_def)
  have "list_all (\<lambda>item. status item = CLOSING) (concat (createItems rnd []))"
    unfolding list_all_iff using status_createItems by blast
  then show ?thesis
    by (simp add: its board4x4_createItems board4x4_size)
qed

section \<open>A mismatched pair\<close>




section \<open>A matching pair\<close>



section \<open>A request for a visible tile\<close>

text \<open>
  Claim C4: for every session of the store and coordinates in \<open>0..3\<close>, if the addressed
  tile is \<open>OPEN\<close> or \<open>TEMP_OPEN\<close>, the request fails with Conflict and the store after
  the request is the store before it: no tile and no score of any session has changed.
  Every session of a run has a board of four rows of four tiles (\<open>run_session_ok\<close>).
\<close>

theorem conflict_leaves_session:
  assumes "s tok = Some game" and "board4x4 (items game)"
    and "0 \<le> row" and "row \<le> 3" and "0 \<le> col" and "col \<le> 3"
    and "status (item_at (items game) (nat row, nat col)) \<in> {OPEN, TEMP_OPEN}"
  shows "open_game_pic s tok row col = (s, Inl Conflict)"
proof -
  from assms(2-6) have "valid_pos (items game) (nat row, nat col)"
    by (rule in_range_valid)
  then have "open_pic game (nat row) (nat col) = Inl Conflict"
    using assms(7) by (rule open_pic_Conflict)
  then show ?thesis
    using open_game_pic_body [of s tok game row col, OF assms(1,3-6)] by simp
qed

theorem conflict_leaves_session_witness:
  "status (item_at (items (the (run Map.empty first_pick ''t''))) (nat 0, nat 0)) = TEMP_OPEN \<and>
   open_game_pic (run Map.empty first_pick) ''t'' 0 0 = (run Map.empty first_pick, Inl Conflict)"
proof -
  let ?s = "run Map.empty first_pick"
  have "?s ''t'' \<noteq> None" by code_simp
  then have s: "?s ''t'' = Some (the (?s ''t''))" by simp
  have b: "board4x4 (items (the (?s ''t'')))" by code_simp
  have st: "status (item_at (items (the (?s ''t''))) (nat 0, nat 0)) = TEMP_OPEN" by code_simp
  then have v: "status (item_at (items (the (?s ''t''))) (nat 0, nat 0)) \<in> {OPEN, TEMP_OPEN}"
    by simp
  have r: "(0::int) \<le> 0" "(0::int) \<le> 3" by simp_all
  from conflict_leaves_session [of ?s "''t''" "the (?s ''t'')" 0 0, OF s b r r v] st
  show ?thesis by simp
qed

section \<open>The end of a session\<close>

text \<open>
  Claim C5: when a reveal on a store of a run returns a session all of whose tiles are
  \<open>OPEN\<close>, the session has 16 tiles, its flag \<open>ended\<close> is set and its token is no longer
  in the store; after any further requests that do not create a session with that token,
  a lookup of the token and every reveal with it fail with NotFound.
\<close>

theorem win_ends_session:
  assumes "open_game_pic (run Map.empty rqs) tok row col = (s', Inr game')"
    and "list_all (\<lambda>item. status item = OPEN) (concat (items game'))"
  shows "length (concat (items game')) = 16 \<and> ended game' \<and> s' tok = None \<and>
         (\<forall>later. tok \<notin> set (created later) \<longrightarrow>
            get_game_by_token (run s' later) tok = Inl NotFound \<and>
            (\<forall>row' col'. snd (open_game_pic (run s' later) tok row' col') = Inl NotFound))"
proof -
  let ?s = "run Map.empty rqs"
  obtain game where s: "?s tok = Some game"
    using assms(1) by (cases "?s tok") (simp_all add: open_game_pic_NotFound)
  then have ok: "session_ok tok game" by (rule run_session_ok)
  have range: "0 \<le> row" "row \<le> 3" "0 \<le> col" "col \<le> 3"
    using assms(1) s open_game_pic_RangeError [of ?s tok game row col] by auto
  from ok have b: "board4x4 (items game)" by (simp add: session_ok_def board_ok_def)
  from b range have valid: "valid_pos (items game) (nat row, nat col)" by (rule in_range_valid)
  from assms(2) have all: "length (opened (items game')) = length (concat (items game'))"
    by (rule all_open_opened)
  from s ok range
  have win: "length (concat (items game')) = 16 \<and> ended game' \<and> s' tok = None"
  proof (cases rule: open_game_pic_cases [of ?s tok game row col])
    case conflict
    with assms(1) show ?thesis by simp
  next
    case (single g)
    with assms(1) have g: "game' = g" by simp
    have "valid_pos (items g) (nat row, nat col)"
      using valid by (simp add: single(3) valid_pos_scanned)
    then have "item_at (items g) (nat row, nat col) \<in> set (concat (items g))"
      by (rule item_at_in_concat)
    moreover have "status (item_at (items g) (nat row, nat col)) = TEMP_OPEN"
      using status_scanned [OF valid valid] by (simp add: single(3))
    ultimately show ?thesis using assms(2) g by (auto simp: list_all_iff)
  next
    case (pair i1 i2 g)
    with assms(1) have g: "game' = g" by simp
    from ok pair(2) have "session_ok tok g"
      unfolding pair(3) by (rule session_ok_resolved)
    then have "length (concat (items g)) = 16"
      by (simp add: session_ok_def board_ok_def board4x4_size)
    with all g pair(4) show ?thesis by simp
  next
    case (win i1 i2 g)
    with assms(1) have g: "game' = g\<lparr>ended := True, ended_event := True\<rparr>"
      and s': "s' = ?s(tok := None)"
      by simp_all
    from ok win(2) have "session_ok tok g"
      unfolding win(3) by (rule session_ok_resolved)
    then have "length (concat (items g)) = 16"
      by (simp add: session_ok_def board_ok_def board4x4_size)
    with g s' show ?thesis by simp
  qed
  have "get_game_by_token (run s' later) tok = Inl NotFound \<and>
      (\<forall>row' col'. snd (open_game_pic (run s' later) tok row' col') = Inl NotFound)"
    if "tok \<notin> set (created later)" for later
  proof -
    from win that have "run s' later tok = None" by (simp add: run_absent)
    then show ?thesis
      by (simp add: get_game_by_token_def open_game_pic_NotFound)
  qed
  with win show ?thesis by blast
qed

theorem win_ends_session_witness:
  "list_all (\<lambda>item. status item = OPEN)
     (concat (items (projr (snd (open_game_pic (run Map.empty win_run) ''t'' 3 3))))) \<and>
   ended (projr (snd (open_game_pic (run Map.empty win_run) ''t'' 3 3))) \<and>
   fst (open_game_pic (run Map.empty win_run) ''t'' 3 3) ''t'' = None \<and>
   get_game_by_token (run (fst (open_game_pic (run Map.empty win_run) ''t'' 3 3)) after_win) ''t'' =
     Inl NotFound \<and>
   snd (open_game_pic (run (fst (open_game_pic (run Map.empty win_run) ''t'' 3 3)) after_win)
     ''t'' 0 0) = Inl NotFound"
proof -
  let ?s = "run Map.empty win_run"
  let ?r = "snd (open_game_pic ?s ''t'' 3 3)"
  have "\<not> isl ?r" by code_simp
  then have "?r = Inr (projr ?r)" by simp
  then have call: "open_game_pic ?s ''t'' 3 3 = (fst (open_game_pic ?s ''t'' 3 3), Inr (projr ?r))"
    by (simp add: prod_eq_iff)
  have all: "list_all (\<lambda>item. status item = OPEN) (concat (items (projr ?r)))"
    by code_simp
  have later: "''t'' \<notin> set (created after_win)" by code_simp
  from win_ends_session [of win_run "''t''" 3 3, OF call all] all later
  show ?thesis by blast
qed

section \<open>What a response shows\<close>

text \<open>
  Claim C6 says that a response never shows the pair id of a tile that is \<open>CLOSED\<close> or
  \<open>CLOSING\<close>. The response to the creation of a session shows the pair id 1 of the
  \<open>CLOSING\<close> tile at \<open>(0, 0)\<close>, and the response to a lookup after the first pick shows
  the pair id 2 of the \<open>CLOSED\<close> tile at \<open>(0, 1)\<close>.
\<close>

theorem hidden_id_in_response_counterexample:
  "status (item_at (items (snd (create_game Map.empty ''t'' 0 rnd0))) (0, 0)) = CLOSING \<and>
   json_tile (Game_json (snd (create_game Map.empty ''t'' 0 rnd0))) (0, 0) =
     Some (JObj [(''photoId'', JInt 1), (''status'', JStr ''CLOSING'')]) \<and>
   status (item_at (items (projr (get_game_by_token (run Map.empty first_pick) ''t''))) (0, 1)) =
     CLOSED \<and>
   json_tile (Game_json (projr (get_game_by_token (run Map.empty first_pick) ''t''))) (0, 1) =
     Some (JObj [(''photoId'', JInt 2), (''status'', JStr ''CLOSED'')])"
  by code_simp

text \<open>
  Claim C6, amended: in every session state returned by create, get or reveal, every tile
  of the board shows both its pair id and its status, whatever the status; so tiles with
  status \<open>TEMP_OPEN\<close> or \<open>OPEN\<close> show their id, and so do \<open>CLOSED\<close> and \<open>CLOSING\<close>
  tiles.
\<close>

theorem response_shows_every_id:
  assumes "game = snd (create_game s tok now rnd) \<or> get_game_by_token s tok = Inr game \<or>
      snd (open_game_pic s tok row col) = Inr game"
    and "valid_pos (items game) p"
  shows "Option.bind (json_tile (Game_json game) p) (json_field ''photoId'') =
           Some (JInt (photoId (item_at (items game) p))) \<and>
         Option.bind (json_tile (Game_json game) p) (json_field ''status'') =
           Some (JStr (ImgStatus_value (status (item_at (items game) p))))"
  using assms(2)
  by (simp add: json_tile_def Game_json_def Item_json_def valid_pos_def item_at_def)

theorem response_shows_every_id_witness:
  "Option.bind (json_tile (Game_json (snd (create_game Map.empty ''t'' 0 rnd0))) (3, 3))
     (json_field ''photoId'') = Some (JInt 0)"
proof -
  let ?g = "snd (create_game Map.empty ''t'' 0 rnd0)"
  have v: "valid_pos (items ?g) (3, 3)" by code_simp
  have id: "photoId (item_at (items ?g) (3, 3)) = 0" by code_simp
  have "?g = snd (create_game Map.empty ''t'' 0 rnd0) \<or>
      get_game_by_token Map.empty ''t'' = Inr ?g \<or>
      snd (open_game_pic Map.empty ''t'' 0 0) = Inr ?g"
    by simp
  from response_shows_every_id [OF this v] id show ?thesis by simp
qed

section \<open>The board never changes\<close>

text \<open>
  Claim C7: every session of every run has a board of four rows of four tiles, 16 in all,
  with exactly 8 distinct pair ids (the numbers 0 to 7), each on exactly two tiles. Through
  any further requests that do not create a session with its token (reveals, lookups, timers
  that end sessions), the session has the same pair ids in the same arrangement as long as
  it is in the store, and so has every session that a reveal returns (the one returned by
  the winning reveal, which has ended, among them).
\<close>

theorem board_is_fixed:
  assumes "run Map.empty rqs tok = Some game"
  shows "board4x4 (items game) \<and>
         length (photo_ids (items game)) = 16 \<and>
         set (photo_ids (items game)) = {0, 1, 2, 3, 4, 5, 6, 7} \<and>
         card (set (photo_ids (items game))) = 8 \<and>
         (\<forall>p \<in> set (photo_ids (items game)). count_list (photo_ids (items game)) p = 2) \<and>
         (\<forall>later game'.
            tok \<notin> set (created later) \<and> run (run Map.empty rqs) later tok = Some game' \<longrightarrow>
            photo_grid (items game') = photo_grid (items game)) \<and>
         (\<forall>row col game'.
            snd (open_game_pic (run Map.empty rqs) tok row col) = Inr game' \<longrightarrow>
            photo_grid (items game') = photo_grid (items game))"
proof -
  let ?s = "run Map.empty rqs"
  have store: "store_ok ?s" using store_ok_empty by (rule store_ok_run)
  with assms have "session_ok tok game" by (simp add: store_ok_def)
  then have b: "board4x4 (items game)" and ids: "mset (photo_ids (items game)) = mset photos0"
    by (simp_all add: session_ok_def board_ok_def)
  from ids have "set (photo_ids (items game)) = set photos0" by (rule mset_eq_setD)
  then have set: "set (photo_ids (items game)) = {0, 1, 2, 3, 4, 5, 6, 7}"
    by (simp add: set_photos0)
  have later: "photo_grid (items game') = photo_grid (items game)"
    if "tok \<notin> set (created later)" "run ?s later tok = Some game'" for later game'
    using store assms that(2,1) by (rule run_photo_grid)
  have response: "photo_grid (items game') = photo_grid (items game)"
    if "snd (open_game_pic ?s tok row col) = Inr game'" for row col game'
    using open_game_pic_photo_grid [OF store assms, of row col] that by simp
  from b set pairs_of_mset [OF ids] later response show ?thesis by blast
qed

theorem board_is_fixed_witness:
  "board4x4 (items (the (run Map.empty first_pick ''t''))) \<and>
   card (set (photo_ids (items (the (run Map.empty first_pick ''t''))))) = 8 \<and>
   photo_grid (items (the (run (run Map.empty first_pick) [Get ''t'', Open_pic ''t'' 0 1] ''t''))) =
     photo_grid (items (the (run Map.empty first_pick ''t'')))"
proof -
  let ?s = "run Map.empty first_pick"
  have "?s ''t'' \<noteq> None" by code_simp
  then have s: "?s ''t'' = Some (the (?s ''t''))" by simp
  have "run ?s [Get ''t'', Open_pic ''t'' 0 1] ''t'' \<noteq> None" by code_simp
  then have later: "run ?s [Get ''t'', Open_pic ''t'' 0 1] ''t'' =
      Some (the (run ?s [Get ''t'', Open_pic ''t'' 0 1] ''t''))"
    by simp
  have fresh: "''t'' \<notin> set (created [Get ''t'', Open_pic ''t'' 0 1])" by simp
  from board_is_fixed [of first_pick "''t''" "the (?s ''t'')", OF s] later fresh
  show ?thesis by blast
qed

section \<open>What a reveal changes\<close>




section \<open>Which tiles can be revealed\<close>

text \<open>
  Claim C10: for every session of a run and coordinates in \<open>0..3\<close>, the request fails
  with Conflict exactly when the addressed tile is \<open>OPEN\<close> or \<open>TEMP_OPEN\<close>. When the
  addressed tile is \<open>CLOSING\<close>, as a tile of a pair that has just mismatched is, the
  request succeeds, the tile is the selection of the turn, and it is \<open>TEMP_OPEN\<close> in the
  session that is stored and returned.
\<close>

theorem closing_tile_is_revealable:
  assumes "run Map.empty rqs tok = Some game"
    and "0 \<le> row" and "row \<le> 3" and "0 \<le> col" and "col \<le> 3"
  shows "(snd (open_game_pic (run Map.empty rqs) tok row col) = Inl Conflict \<longleftrightarrow>
            status (item_at (items game) (nat row, nat col)) \<in> {OPEN, TEMP_OPEN}) \<and>
         (status (item_at (items game) (nat row, nat col)) = CLOSING \<longrightarrow>
            selected (items game) (nat row) (nat col) = [(nat row, nat col)] \<and>
            (\<exists>game'. open_game_pic (run Map.empty rqs) tok row col =
                 ((run Map.empty rqs)(tok \<mapsto> game'), Inr game') \<and>
               status (item_at (items game') (nat row, nat col)) = TEMP_OPEN))"
proof -
  let ?s = "run Map.empty rqs"
  let ?p = "(nat row, nat col)"
  from assms(1) have ok: "session_ok tok game" by (rule run_session_ok)
  then have b: "board4x4 (items game)" and turn: "turn_ok (items game)"
    by (simp_all add: session_ok_def board_ok_def)
  from b assms(2-5) have valid: "valid_pos (items game) ?p" by (rule in_range_valid)
  have single_if_closing: "selected (items game) (nat row) (nat col) = [?p]"
    if "status (item_at (items game) ?p) = CLOSING"
  proof -
    from valid have "item_at (items game) ?p \<in> set (concat (items game))"
      by (rule item_at_in_concat)
    with that have "CLOSING \<in> status ` set (concat (items game))"
      by (metis imageI)
    with turn have "temp_open (items game) = []" by (auto simp: turn_ok_def)
    with valid show ?thesis by (rule selected_single)
  qed
  from assms(1) ok assms(2-5) show ?thesis
  proof (cases rule: open_game_pic_cases [of ?s tok game row col])
    case conflict
    then show ?thesis by auto
  next
    case (single g)
    have "status (item_at (items g) ?p) = TEMP_OPEN"
      using status_scanned [OF valid valid] by (simp add: single(3))
    with single(1,2,4) show ?thesis by auto
  next
    case (pair i1 i2 g)
    from pair(1,2) single_if_closing
    have "status (item_at (items game) ?p) \<noteq> CLOSING" by auto
    with pair(1,5) show ?thesis by auto
  next
    case (win i1 i2 g)
    from win(1,2) single_if_closing
    have "status (item_at (items game) ?p) \<noteq> CLOSING" by auto
    with win(1,5) show ?thesis by auto
  qed
qed

theorem closing_tile_is_revealable_witness:
  "status (item_at (items (the (run Map.empty mismatch ''t''))) (nat 0, nat 0)) = CLOSING \<and>
   snd (open_game_pic (run Map.empty mismatch) ''t'' 0 0) \<noteq> Inl Conflict \<and>
   selected (items (the (run Map.empty mismatch ''t''))) (nat 0) (nat 0) = [(nat 0, nat 0)] \<and>
   (\<exists>game'. open_game_pic (run Map.empty mismatch) ''t'' 0 0 =
        ((run Map.empty mismatch)(''t'' \<mapsto> game'), Inr game') \<and>
      status (item_at (items game') (nat 0, nat 0)) = TEMP_OPEN)"
proof -
  let ?s = "run Map.empty mismatch"
  have "?s ''t'' \<noteq> None" by code_simp
  then have s: "?s ''t'' = Some (the (?s ''t''))" by simp
  have r: "(0::int) \<le> 0" "(0::int) \<le> 3" by simp_all
  have st: "status (item_at (items (the (?s ''t''))) (nat 0, nat 0)) = CLOSING"
    by code_simp
  from closing_tile_is_revealable [of mismatch "''t''" "the (?s ''t'')" 0 0, OF s r r] st
  show ?thesis by simp
qed

end
